theory Spec2Isabelle
  imports Main "HOL-Library.Sublist"
begin

section \<open>Bytes, characters and streams\<close>

text \<open>
  A file is the list of its bytes; a byte is a HOL \<^typ>\<open>char\<close> (eight bits), so a file
  is a \<^typ>\<open>string\<close>. The line terminator is the byte 10, NUL is the byte 0.

  The C code reads with \<^verbatim>\<open>char c; c = getc(fptr);\<close>. \<^verbatim>\<open>getc\<close> returns an
  \<^verbatim>\<open>int\<close>: the byte as a value in 0..255, or \<^verbatim>\<open>EOF\<close> (-1) at the end of the file.
  Storing it into a \<^verbatim>\<open>char\<close> keeps the low eight bits; the program is read with a signed
  \<^verbatim>\<open>char\<close> (with an unsigned one no comparison \<^verbatim>\<open>c != EOF\<close> is ever false and no loop below
  ends). A variable \<^verbatim>\<open>c\<close> of the code is therefore an \<^typ>\<open>int\<close> in -128..127 here, and
  \<^verbatim>\<open>fputc(c, f)\<close> writes its low eight bits.
\<close>

definition NL :: char where
  "NL = CHR 0x0A"

definition NUL :: char where
  "NUL = CHR 0x00"

definition EOF :: int where
  "EOF = - 1"

definition to_char :: "int \<Rightarrow> int" where
  "to_char v = (if 128 \<le> v mod 256 then v mod 256 - 256 else v mod 256)"

fun getc :: "string \<Rightarrow> int \<times> string" where
  "getc [] = (EOF, [])"
| "getc (b # bs) = (of_char b, bs)"

definition fputc :: "int \<Rightarrow> string" where
  "fputc c = [char_of c]"

section \<open>LineScanner\<close>

text \<open>
  \<^verbatim>\<open>count_lines\<close>: the loop \<^verbatim>\<open>do { c = getc(*fptr); ... } while (c != EOF)\<close> with its locals
  \<^verbatim>\<open>lines\<close> and \<^verbatim>\<open>first\<close>. The first argument is what is left of the file at the read
  position. At the end of the file \<^verbatim>\<open>c\<close> is \<^verbatim>\<open>EOF\<close>, neither test holds and the loop ends
  with \<^verbatim>\<open>lines\<close> as it is: the first equation. \<^verbatim>\<open>lines\<close> is a \<^verbatim>\<open>size_t\<close>; it grows by at
  most one per byte read plus one, so it does not wrap on a file that fits a file system,
  and is a \<^typ>\<open>nat\<close> here.
\<close>

fun count_lines_loop :: "string \<Rightarrow> nat \<Rightarrow> bool \<Rightarrow> nat" where
  "count_lines_loop [] lines first = lines"
| "count_lines_loop (b # bs) lines first =
     (let c = to_char (fst (getc (b # bs)));
          lines1 = (if first \<and> c \<noteq> EOF then lines + 1 else lines);
          first1 = (if first \<and> c \<noteq> EOF then False else first);
          lines2 = (if c = of_char NL then lines1 + 1 else lines1)
      in if c \<noteq> EOF then count_lines_loop bs lines2 first1 else lines2)"

definition count_lines :: "string \<Rightarrow> nat" where
  "count_lines s = count_lines_loop s 0 True"

text \<open>The line count as the specification words it: the terminators, plus one for an
  unterminated last segment.\<close>

definition spec_line_count :: "string \<Rightarrow> nat" where
  "spec_line_count s =
     (if s = [] then 0 else count_list s NL + (if last s \<noteq> NL then 1 else 0))"

text \<open>
  \<^verbatim>\<open>verify_lines\<close>: the same scan with the line length \<^verbatim>\<open>linelen\<close>, which counts every
  byte read since the last terminator, the terminator included. The two \<^verbatim>\<open>return -1\<close>
  are the two errors; the line number printed with the first is kept. \<^verbatim>\<open>max_val\<close> is an
  \<^verbatim>\<open>int\<close> that every caller gives as a positive constant, a \<^typ>\<open>nat\<close> here.
\<close>

datatype verify_error = LineTooLong nat | NulByteFound

fun verify_lines_loop :: "string \<Rightarrow> nat \<Rightarrow> nat \<Rightarrow> nat \<Rightarrow> bool \<Rightarrow> verify_error + nat" where
  "verify_lines_loop [] max_val lines linelen first = Inr lines"
| "verify_lines_loop (b # bs) max_val lines linelen first =
     (let c = to_char (fst (getc (b # bs)));
          linelen1 = (if c \<noteq> EOF then linelen + 1 else linelen);
          lines1 = (if c \<noteq> EOF \<and> first then lines + 1 else lines);
          first1 = (if c \<noteq> EOF \<and> first then False else first)
      in if c = of_char NL \<and> max_val < linelen1 then Inl (LineTooLong lines1)
         else
           (let lines2 = (if c = of_char NL then lines1 + 1 else lines1);
                linelen2 = (if c = of_char NL then 0 else linelen1)
            in if c = of_char NUL then Inl NulByteFound
               else if c \<noteq> EOF then verify_lines_loop bs max_val lines2 linelen2 first1
               else Inr lines2))"

definition verify_lines :: "string \<Rightarrow> nat \<Rightarrow> verify_error + nat" where
  "verify_lines s max_val = verify_lines_loop s max_val 0 0 True"

section \<open>Constants and the C library\<close>

definition LOGLEN :: nat where
  "LOGLEN = 2560"



definition CLOG_BUFFER :: nat where
  "CLOG_BUFFER = 200"

definition LOGF :: string where
  "LOGF = ''editorback.log''"

definition TEMPF :: string where
  "TEMPF = ''tempeditor.tmp''"

definition SQ :: char where
  "SQ = CHR 0x27"

definition DQ :: char where
  "DQ = CHR 0x22"

text \<open>
  A C string argument (\<^verbatim>\<open>fpath\<close>, \<^verbatim>\<open>line\<close>, \<^verbatim>\<open>logstr\<close>) is the list of its bytes before
  the closing NUL. A buffer filled from a file may hold a NUL among the bytes read; the C
  string in it, which is what \<^verbatim>\<open>fputs\<close>, \<^verbatim>\<open>printf("%s")\<close>, \<^verbatim>\<open>strstr\<close> and \<^verbatim>\<open>strchr\<close> see, ends
  before the first NUL.
\<close>

definition cstr :: "string \<Rightarrow> string" where
  "cstr buf = takeWhile (\<lambda>b. b \<noteq> NUL) buf"

text \<open>\<^verbatim>\<open>fgets(line, n, fptr)\<close> for \<open>n \<ge> 2\<close>: at most \<open>n - 1\<close> bytes, stopping after a
  terminator; \<^verbatim>\<open>NULL\<close> when the file is at its end. The result is the buffer and what is
  left of the file.\<close>

fun fgets_read :: "nat \<Rightarrow> string \<Rightarrow> string \<times> string" where
  "fgets_read 0 s = ([], s)"
| "fgets_read (Suc k) [] = ([], [])"
| "fgets_read (Suc k) (b # bs) =
     (if b = NL then ([b], bs)
      else (b # fst (fgets_read k bs), snd (fgets_read k bs)))"

definition fgets :: "nat \<Rightarrow> string \<Rightarrow> (string \<times> string) option" where
  "fgets n s =
     (if fst (fgets_read (n - 1) s) = [] then None else Some (fgets_read (n - 1) s))"



text \<open>The conversion \<^verbatim>\<open>%lu\<close> of a \<^verbatim>\<open>size_t\<close>.\<close>

fun show_ulong :: "nat \<Rightarrow> string" where
  "show_ulong n =
     (if n < 10 then [char_of (48 + n)]
      else show_ulong (n div 10) @ [char_of (48 + n mod 10)])"

text \<open>\<^verbatim>\<open>snprintf(buf, n, ...)\<close> keeps the first \<open>n - 1\<close> bytes of the formatted text.\<close>

definition snprintf :: "nat \<Rightarrow> string \<Rightarrow> string" where
  "snprintf n text = take (n - 1) text"

section \<open>The file system\<close>

text \<open>
  The files of the working directory: a store from paths to contents. Two paths name the
  same file exactly when they are the same string. There are no permissions in the store:
  opening for writing always succeeds, opening for reading, \<^verbatim>\<open>remove\<close> and \<^verbatim>\<open>rename\<close>
  fail on a path that is not there. \<^verbatim>\<open>exit(1)\<close> and \<^verbatim>\<open>die\<close> end the program; an operation
  returns the error it ended with (\<open>None\<close> when it ran to its end) and the store it left.
\<close>

type_synonym fs = "string \<rightharpoonup> string"

datatype error =
    FopenFailed
  | LineOutOfRange
  | RemoveFailed
  | RenameFailed
  | LogMissing
  | LogTampered verify_error

definition remove :: "fs \<Rightarrow> string \<Rightarrow> fs option" where
  "remove st p = (if st p = None then None else Some (st(p := None)))"

definition rename :: "fs \<Rightarrow> string \<Rightarrow> string \<Rightarrow> fs option" where
  "rename st old new =
     (case st old of None \<Rightarrow> None | Some content \<Rightarrow> Some ((st(old := None))(new \<mapsto> content)))"

text \<open>\<^verbatim>\<open>is_empty\<close>: \<^verbatim>\<open>sb.st_size <= 1\<close>, on the size of the file.\<close>

definition is_empty :: "string \<Rightarrow> bool" where
  "is_empty content = (length content \<le> 1)"

text \<open>The last two steps of every rewrite: \<^verbatim>\<open>remove(path)\<close>, then
  \<^verbatim>\<open>rename(TEMPF, path)\<close>. When \<^verbatim>\<open>rename\<close> fails the program ends after \<^verbatim>\<open>remove\<close> has been
  done: the file is gone.\<close>

definition replace_by_temp :: "fs \<Rightarrow> string \<Rightarrow> error option \<times> fs" where
  "replace_by_temp st path =
     (case remove st path of
        None \<Rightarrow> (Some RemoveFailed, st)
      | Some st1 \<Rightarrow>
          (case rename st1 TEMPF path of
             None \<Rightarrow> (Some RenameFailed, st1)
           | Some st2 \<Rightarrow> (None, st2)))"

section \<open>AuditLog\<close>

text \<open>
  The loop of \<^verbatim>\<open>truncate_log\<close>,
  \<^verbatim>\<open>while (fgets(line, LOGLEN - 1, fptr) != NULL) { if (logs > CLOG_BUFFER - 10) --logs; else fputs(line, temp); }\<close>:
  the result is what it writes to the temporary file.
\<close>

function trunc_loop :: "string \<Rightarrow> nat \<Rightarrow> string" where
  "trunc_loop s logs =
     (case fgets (LOGLEN - 1) s of
        None \<Rightarrow> []
      | Some (line, s1) \<Rightarrow>
          if CLOG_BUFFER - 10 < logs then trunc_loop s1 (logs - 1)
          else cstr line @ trunc_loop s1 logs)"
  by pat_completeness auto

lemma fgets_read_length:
  "length (fst (fgets_read k s)) + length (snd (fgets_read k s)) = length s"
  by (induction k s rule: fgets_read.induct) auto

lemma fgets_shorter: "fgets n s = Some (line, s1) \<Longrightarrow> length s1 < length s"
proof -
  assume a: "fgets n s = Some (line, s1)"
  then have r: "fgets_read (n - 1) s = (line, s1)" and ne: "line \<noteq> []"
    by (auto simp: fgets_def split: if_splits)
  with fgets_read_length [of "n - 1" s] r show ?thesis by (cases line) auto
qed

termination trunc_loop
  by (relation "measure (\<lambda>(s, logs). length s)") (auto dest: fgets_shorter)

declare trunc_loop.simps [simp del]

definition truncate_log :: "fs \<Rightarrow> error option \<times> fs" where
  "truncate_log st =
     (case st LOGF of
        None \<Rightarrow> (Some FopenFailed, st)
      | Some log \<Rightarrow>
          (case verify_lines log (LOGLEN - 2) of
             Inl e \<Rightarrow> (Some (LogTampered e), st)
           | Inr logs \<Rightarrow>
               if CLOG_BUFFER < logs then
                 (let st1 = st(TEMPF \<mapsto> []);
                      st2 = st1(TEMPF \<mapsto> trunc_loop log logs)
                  in replace_by_temp st2 LOGF)
               else (None, st)))"

text \<open>
  \<^verbatim>\<open>change_log\<close>: the clock is outside the program; \<open>stamp\<close> is the text that
  \<^verbatim>\<open>%04d-%02d-%02d %02d:%02d:%02d\<close> gives for the local time. Mode \<^verbatim>\<open>a+\<close> creates the
  log when it is not there.
\<close>

definition change_log :: "string \<Rightarrow> fs \<Rightarrow> string \<Rightarrow> error option \<times> fs" where
  "change_log stamp st logstr =
     (let old = (case st LOGF of None \<Rightarrow> [] | Some log \<Rightarrow> log);
          st1 = st(LOGF \<mapsto> old @ ''['' @ stamp @ ''] '' @ logstr @ [NL])
      in truncate_log st1)"







text \<open>
  A log as \<^verbatim>\<open>change_log\<close> writes it is a sequence of entries, each followed by a
  terminator. An entry is well formed when it holds no terminator, no NUL and no byte 0xFF
  and, with its terminator, is no longer than the \<^verbatim>\<open>LOGLEN - 2\<close> bytes that \<^verbatim>\<open>verify_lines\<close>
  allows.
\<close>

definition entries :: "string list \<Rightarrow> string" where
  "entries es = concat (map (\<lambda>e. e @ [NL]) es)"

definition entry_ok :: "string \<Rightarrow> bool" where
  "entry_ok e \<longleftrightarrow>
     NL \<notin> set e \<and> NUL \<notin> set e \<and> CHR 0xFF \<notin> set e \<and> length e + 1 \<le> LOGLEN - 2"








section \<open>LineEditor\<close>

text \<open>
  \<^verbatim>\<open>append_line\<close>. Mode \<^verbatim>\<open>a\<close> creates the file when it is not there; \<^verbatim>\<open>is_empty\<close> then
  sees the size before anything is written.
\<close>

definition append_line :: "string \<Rightarrow> fs \<Rightarrow> string \<Rightarrow> string \<Rightarrow> error option \<times> fs" where
  "append_line stamp st fpath line =
     (let old = (case st fpath of None \<Rightarrow> [] | Some content \<Rightarrow> content);
          new = (if is_empty old then old @ line else old @ [NL] @ line);
          st1 = st(fpath \<mapsto> new);
          lines = count_lines new;
          msg = snprintf LOGLEN (''File '' @ [SQ] @ fpath @ [SQ] @ '': Line '' @ [DQ] @ line @ [DQ]
                  @ '' appended | Lines After = '' @ show_ulong lines)
      in change_log stamp st1 msg)"

text \<open>
  The loop of \<^verbatim>\<open>del_line\<close>, which starts with \<^verbatim>\<open>count = 1\<close>; the result is what it writes
  to the temporary file. At the end of the file \<^verbatim>\<open>c\<close> is \<^verbatim>\<open>EOF\<close>, nothing is written and
  the loop ends. \<open>lineno\<close> comes from \<^verbatim>\<open>strtol\<close> and is below \<open>2^63\<close>, so \<^verbatim>\<open>lineno + 1\<close>
  does not wrap.
\<close>

fun del_loop :: "string \<Rightarrow> nat \<Rightarrow> nat \<Rightarrow> string" where
  "del_loop [] lineno count = []"
| "del_loop (b # bs) lineno count =
     (let c = to_char (fst (getc (b # bs)));
          count1 = (if c = of_char NL then count + 1 else count);
          out = (if count1 \<noteq> lineno \<and> c \<noteq> EOF
                 then (if count1 \<noteq> lineno + 1 \<or> c \<noteq> of_char NL then fputc c else [])
                 else [])
      in out @ (if c \<noteq> EOF then del_loop bs lineno count1 else []))"

text \<open>
  \<^verbatim>\<open>del_line\<close>, \<^verbatim>\<open>ins_line\<close> and \<^verbatim>\<open>rep_line\<close> are the same statements around their loop,
  in this order: \<^verbatim>\<open>fopen(fpath, "r")\<close>; \<^verbatim>\<open>if (lineno > (lines = count_lines(&fptr)))\<close> the
  message and \<^verbatim>\<open>exit(1)\<close>; \<^verbatim>\<open>fseek\<close> to the start; \<^verbatim>\<open>fopen(TEMPF, "w")\<close>; the loop;
  \<^verbatim>\<open>fclose\<close> of both; \<^verbatim>\<open>remove(fpath)\<close>; \<^verbatim>\<open>rename(TEMPF, fpath)\<close>; \<^verbatim>\<open>snprintf(msg, LOGLEN, ...)\<close>;
  \<^verbatim>\<open>change_log(msg)\<close>. They are written once here: \<open>transform\<close> is the loop of the
  operation, as a function from what it reads to what it writes, and \<open>msg\<close> the text of
  the log string, made from the line count. The source is read through the handle opened
  first; \<^verbatim>\<open>fopen(TEMPF, "w")\<close> empties the temporary file, which is the source itself when
  \<open>fpath = TEMPF\<close>; \<^verbatim>\<open>remove\<close> then deletes it, \<^verbatim>\<open>rename\<close> fails and no file is left.
\<close>

definition rewrite_file ::
  "string \<Rightarrow> fs \<Rightarrow> string \<Rightarrow> nat \<Rightarrow> (string \<Rightarrow> string) \<Rightarrow> (nat \<Rightarrow> string) \<Rightarrow> error option \<times> fs" where
  "rewrite_file stamp st fpath lineno transform msg =
     (case st fpath of
        None \<Rightarrow> (Some FopenFailed, st)
      | Some content \<Rightarrow>
          (let lines = count_lines content in
           if lines < lineno then (Some LineOutOfRange, st)
           else
             (let st1 = st(TEMPF \<mapsto> []);
                  source = (if fpath = TEMPF then [] else content);
                  st2 = st1(TEMPF \<mapsto> transform source)
              in case replace_by_temp st2 fpath of
                   (Some e, st3) \<Rightarrow> (Some e, st3)
                 | (None, st3) \<Rightarrow> change_log stamp st3 (snprintf LOGLEN (msg lines)))))"

text \<open>\<^verbatim>\<open>lines - 1\<close> in the log string of \<^verbatim>\<open>del_line\<close> is a \<^verbatim>\<open>size_t\<close> subtraction.\<close>

definition del_line :: "string \<Rightarrow> fs \<Rightarrow> string \<Rightarrow> nat \<Rightarrow> error option \<times> fs" where
  "del_line stamp st fpath lineno =
     rewrite_file stamp st fpath lineno (\<lambda>source. del_loop source lineno 1)
       (\<lambda>lines. ''File '' @ [SQ] @ fpath @ [SQ] @ '': Line '' @ show_ulong lineno
          @ '' deleted | Lines After = '' @ show_ulong ((lines + 2 ^ 64 - 1) mod 2 ^ 64))"

text \<open>
  The loop of \<^verbatim>\<open>ins_line\<close>. The variable \<^verbatim>\<open>c\<close> is tested by \<^verbatim>\<open>while (c != EOF)\<close> before it
  is ever assigned when \<open>lineno = 1\<close>; \<open>c\<close> is its value at the start of an iteration, and
  the value it holds before the first one is an argument of the operation.
\<close>

function ins_loop :: "string \<Rightarrow> string \<Rightarrow> nat \<Rightarrow> nat \<Rightarrow> int \<Rightarrow> string" where
  "ins_loop s line lineno count c =
     (if count \<noteq> lineno then
        (let c1 = to_char (fst (getc s));
             s1 = snd (getc s);
             out1 = (if c1 \<noteq> EOF then fputc c1 else []);
             count1 = (if c1 = of_char NL then count + 1 else count);
             out2 = (if count1 = lineno then line @ [NL] else []);
             count2 = (if count1 = lineno then count1 + 1 else count1)
         in out1 @ out2 @ (if c1 \<noteq> EOF then ins_loop s1 line lineno count2 c1 else []))
      else line @ [NL] @ (if c \<noteq> EOF then ins_loop s line lineno (count + 1) c else []))"
  by pat_completeness auto

lemma getc_not_EOF_shorter:
  "to_char (fst (getc s)) \<noteq> EOF \<Longrightarrow> length (snd (getc s)) < length s"
  by (cases s) (auto simp: to_char_def EOF_def)

termination ins_loop
  by (relation "measure (\<lambda>(s, line, lineno, count, c). 2 * length s + (if count = lineno then 1 else 0))")
     (auto dest: getc_not_EOF_shorter)

declare ins_loop.simps [simp del]

definition ins_line :: "string \<Rightarrow> int \<Rightarrow> fs \<Rightarrow> string \<Rightarrow> string \<Rightarrow> nat \<Rightarrow> error option \<times> fs" where
  "ins_line stamp c0 st fpath line lineno =
     rewrite_file stamp st fpath lineno (\<lambda>source. ins_loop source line lineno 1 c0)
       (\<lambda>lines. ''File '' @ [SQ] @ fpath @ [SQ] @ '': Line '' @ [DQ] @ line @ [DQ]
          @ '' inserted at Line '' @ show_ulong lineno
          @ '' | Lines After = '' @ show_ulong ((lines + 1) mod 2 ^ 64))"

text \<open>
  The loop of \<^verbatim>\<open>rep_line\<close>, with its inner loop
  \<^verbatim>\<open>do { c = getc(fptr); } while (c != '\n' && c != EOF)\<close>, which gives the last \<^verbatim>\<open>c\<close> read
  and what is left of the file. In the copying branch \<^verbatim>\<open>fputc(c, temp)\<close> has no test of
  \<^verbatim>\<open>c\<close> before it.
\<close>

fun skip_line :: "string \<Rightarrow> int \<times> string" where
  "skip_line [] = (EOF, [])"
| "skip_line (b # bs) =
     (let c = to_char (fst (getc (b # bs)))
      in if c \<noteq> of_char NL \<and> c \<noteq> EOF then skip_line bs else (c, bs))"

function rep_loop :: "string \<Rightarrow> string \<Rightarrow> nat \<Rightarrow> nat \<Rightarrow> string" where
  "rep_loop s line lineno count =
     (if count \<noteq> lineno then
        (let c1 = to_char (fst (getc s));
             s1 = snd (getc s);
             out1 = fputc c1;
             count1 = (if c1 = of_char NL then count + 1 else count)
         in if count1 = lineno then
              (let c2 = fst (skip_line s1);
                   s2 = snd (skip_line s1)
               in out1 @ line @ (if c2 = of_char NL then fputc c2 else [])
                    @ (if c2 \<noteq> EOF then rep_loop s2 line lineno (count1 + 1) else []))
            else out1 @ (if c1 \<noteq> EOF then rep_loop s1 line lineno count1 else []))
      else
        (let c2 = fst (skip_line s);
             s2 = snd (skip_line s)
         in line @ (if c2 = of_char NL then fputc c2 else [])
              @ (if c2 \<noteq> EOF then rep_loop s2 line lineno (count + 1) else [])))"
  by pat_completeness auto

lemma skip_line_length: "length (snd (skip_line s)) \<le> length s"
  by (induction s) (auto simp: Let_def)

lemma skip_line_not_EOF_shorter:
  "fst (skip_line s) \<noteq> EOF \<Longrightarrow> length (snd (skip_line s)) < length s"
  by (induction s) (auto simp: Let_def split: if_splits)

lemma getc_length: "length (snd (getc s)) \<le> length s"
  by (cases s) auto

termination rep_loop
proof (relation "measure (\<lambda>(s, line, lineno, count). length s)", goal_cases)
  case 1
  show ?case by simp
next
  case (2 s line lineno count c1 s1 out1 count1 c2 s2)
  then have "length s2 < length s1"
    using skip_line_not_EOF_shorter [of s1] by simp
  moreover have "length s1 \<le> length s"
    using 2 getc_length [of s] by simp
  ultimately show ?case by simp
next
  case (3 s line lineno count c1 s1 out1 count1)
  then show ?case
    using getc_not_EOF_shorter [of s] by simp
next
  case (4 s line lineno count c2 s2)
  then show ?case
    using skip_line_not_EOF_shorter [of s] by simp
qed

declare rep_loop.simps [simp del]

definition rep_line :: "string \<Rightarrow> fs \<Rightarrow> string \<Rightarrow> string \<Rightarrow> nat \<Rightarrow> error option \<times> fs" where
  "rep_line stamp st fpath line lineno =
     rewrite_file stamp st fpath lineno (\<lambda>source. rep_loop source line lineno 1)
       (\<lambda>lines. ''File '' @ [SQ] @ fpath @ [SQ] @ '': Line '' @ show_ulong lineno
          @ '' was replaced by '' @ [DQ] @ line @ [DQ]
          @ '' | Lines After = '' @ show_ulong lines)"

section \<open>Files as lines\<close>

text \<open>
  For the statements about whole lines: a file with no byte 0xFF is a non-empty sequence of
  lines with a terminator between each two of them (the empty file is one empty line). A
  line holds no terminator; the lines here hold no byte 0xFF either.
\<close>

fun join_lines :: "string list \<Rightarrow> string" where
  "join_lines [] = []"
| "join_lines [l] = l"
| "join_lines (l # ls) = l @ NL # join_lines ls"

definition clean_line :: "string \<Rightarrow> bool" where
  "clean_line l \<longleftrightarrow> NL \<notin> set l \<and> CHR 0xFF \<notin> set l"

section \<open>Facts about characters\<close>

lemma of_char_int_range: "0 \<le> (of_char b :: int) \<and> (of_char b :: int) < 256"
proof -
  have r: "(of_char b :: int) mod 256 = of_char b" by simp
  have "0 \<le> (of_char b :: int) mod 256" by (rule pos_mod_sign) simp
  moreover have "(of_char b :: int) mod 256 < 256" by (rule pos_mod_bound) simp
  ultimately show ?thesis by (simp only: r)
qed

lemma to_char_of_char_EOF: "to_char (of_char b) = EOF \<longleftrightarrow> b = CHR 0xFF"
proof -
  have r: "(of_char b :: int) mod 256 = of_char b" by simp
  have nn: "0 \<le> (of_char b :: int)" "(of_char b :: int) < 256"
    using of_char_int_range [of b] by simp_all
  have "to_char (of_char b) = EOF \<longleftrightarrow> (of_char b :: int) = 255"
    using nn by (auto simp: to_char_def EOF_def r)
  also have "\<dots> \<longleftrightarrow> (of_char b :: int) = of_char (CHR 0xFF)" by simp
  also have "\<dots> \<longleftrightarrow> b = CHR 0xFF" by (rule of_char_eq_iff)
  finally show ?thesis .
qed

lemma to_char_of_char_NL: "to_char (of_char b) = of_char NL \<longleftrightarrow> b = NL"
proof -
  have r: "(of_char b :: int) mod 256 = of_char b" by simp
  have nn: "0 \<le> (of_char b :: int)" "(of_char b :: int) < 256"
    using of_char_int_range [of b] by simp_all
  have "to_char (of_char b) = of_char NL \<longleftrightarrow> (of_char b :: int) = 10"
    using nn by (auto simp: to_char_def NL_def r)
  also have "\<dots> \<longleftrightarrow> (of_char b :: int) = of_char NL" by (simp add: NL_def)
  also have "\<dots> \<longleftrightarrow> b = NL" by (rule of_char_eq_iff)
  finally show ?thesis .
qed

lemma to_char_of_char_NUL: "to_char (of_char b) = of_char NUL \<longleftrightarrow> b = NUL"
proof -
  have r: "(of_char b :: int) mod 256 = of_char b" by simp
  have nn: "0 \<le> (of_char b :: int)" "(of_char b :: int) < 256"
    using of_char_int_range [of b] by simp_all
  have "to_char (of_char b) = of_char NUL \<longleftrightarrow> (of_char b :: int) = 0"
    using nn by (auto simp: to_char_def NUL_def r)
  also have "\<dots> \<longleftrightarrow> (of_char b :: int) = of_char NUL" by (simp add: NUL_def)
  also have "\<dots> \<longleftrightarrow> b = NUL" by (rule of_char_eq_iff)
  finally show ?thesis .
qed

lemma fputc_to_char: "fputc (to_char (of_char b)) = [b]"
proof -
  have "to_char (of_char b) mod 256 = (of_char b :: int) mod 256"
    by (simp add: to_char_def)
  then have "char_of (to_char (of_char b)) = char_of (of_char b :: int)"
    by (simp only: char_of_quasi_inj)
  then show ?thesis by (simp add: fputc_def)
qed

lemma fputc_EOF: "fputc EOF = [CHR 0xFF]"
  by (simp add: fputc_def EOF_def char_of_def)

lemma fputc_NL: "fputc (of_char NL) = [NL]"
  by (simp add: fputc_def)

lemma to_char_EOF: "to_char EOF = EOF"
  by (simp add: to_char_def EOF_def)

lemma NL_not_FF: "NL \<noteq> CHR 0xFF"
  by (simp add: NL_def)

lemma NUL_not_FF: "NUL \<noteq> CHR 0xFF"
  by (simp add: NUL_def)

lemma NUL_not_NL: "NUL \<noteq> NL"
  by (simp add: NUL_def NL_def)

lemma EOF_not_NL: "EOF \<noteq> of_char NL"
  by (simp add: EOF_def NL_def)

lemma LOGF_not_TEMPF: "LOGF \<noteq> TEMPF"
  by (simp add: LOGF_def TEMPF_def)

lemma file_not_log: "''f'' \<noteq> LOGF" "''f'' \<noteq> TEMPF"
  by (simp_all add: LOGF_def TEMPF_def)

section \<open>The loops, byte by byte\<close>

text \<open>
  One iteration of each loop in terms of the byte read: the byte 0xFF is taken for \<^verbatim>\<open>EOF\<close>,
  as the end of the file is, and every other byte that is written is written as it was
  read.
\<close>

lemma count_lines_loop_Cons:
  "count_lines_loop (b # bs) lines first =
     (if b = CHR 0xFF then lines
      else count_lines_loop bs
             ((if first then lines + 1 else lines) + (if b = NL then 1 else 0)) False)"
proof (cases "b = CHR 0xFF")
  case True
  then show ?thesis by (simp add: to_char_def EOF_def NL_def)
next
  case False
  then show ?thesis
    by (simp add: Let_def to_char_of_char_EOF to_char_of_char_NL NL_not_FF)
qed

lemma verify_lines_loop_Cons:
  "verify_lines_loop (b # bs) m lines linelen first =
     (if b = CHR 0xFF then Inr lines
      else if b = NL then
        (if m < linelen + 1 then Inl (LineTooLong (if first then lines + 1 else lines))
         else verify_lines_loop bs m ((if first then lines + 1 else lines) + 1) 0 False)
      else if b = NUL then Inl NulByteFound
      else verify_lines_loop bs m (if first then lines + 1 else lines) (linelen + 1) False)"
proof (cases "b = CHR 0xFF")
  case True
  then show ?thesis by (simp add: to_char_def EOF_def NL_def NUL_def)
next
  case False
  then show ?thesis
    by (simp add: Let_def to_char_of_char_EOF to_char_of_char_NL to_char_of_char_NUL
        NL_not_FF NUL_not_FF NUL_not_NL)
qed

lemma del_loop_Cons:
  "del_loop (b # bs) lineno count =
     (if b = CHR 0xFF then []
      else (if (if b = NL then count + 1 else count) \<noteq> lineno
               \<and> ((if b = NL then count + 1 else count) \<noteq> lineno + 1 \<or> b \<noteq> NL)
            then [b] else [])
           @ del_loop bs lineno (if b = NL then count + 1 else count))"
proof (cases "b = CHR 0xFF")
  case True
  then show ?thesis by (simp add: to_char_def EOF_def NL_def)
next
  case False
  then show ?thesis
    by (simp add: Let_def to_char_of_char_EOF to_char_of_char_NL fputc_to_char NL_not_FF)
qed

lemma ins_loop_Nil:
  "count \<noteq> lineno \<Longrightarrow> ins_loop [] line lineno count c = []"
  by (subst ins_loop.simps) (simp add: Let_def to_char_EOF EOF_not_NL)

lemma ins_loop_Cons:
  "count \<noteq> lineno \<Longrightarrow>
   ins_loop (b # bs) line lineno count c =
     (if b = CHR 0xFF then []
      else if b = NL \<and> count + 1 = lineno
           then b # line @ [NL] @ ins_loop bs line lineno (count + 2) (to_char (of_char b))
      else b # ins_loop bs line lineno (if b = NL then count + 1 else count) (to_char (of_char b)))"
proof (cases "b = CHR 0xFF")
  case True
  assume "count \<noteq> lineno"
  with True show ?thesis
    by (subst ins_loop.simps) (simp add: to_char_def EOF_def NL_def)
next
  case False
  assume "count \<noteq> lineno"
  with False show ?thesis
    by (subst ins_loop.simps)
       (simp add: Let_def to_char_of_char_EOF to_char_of_char_NL fputc_to_char NL_not_FF)
qed

lemma ins_loop_at:
  "ins_loop s line lineno lineno c =
     line @ [NL] @ (if c \<noteq> EOF then ins_loop s line lineno (lineno + 1) c else [])"
  by (subst ins_loop.simps) simp

lemma skip_line_Cons:
  "skip_line (b # bs) =
     (if b = NL then (of_char NL, bs) else if b = CHR 0xFF then (EOF, bs) else skip_line bs)"
proof (cases "b = CHR 0xFF")
  case True
  then show ?thesis by (simp add: to_char_def EOF_def NL_def)
next
  case False
  then show ?thesis
    by (auto simp: Let_def to_char_of_char_EOF to_char_of_char_NL NL_not_FF)
qed

lemma rep_loop_Nil:
  "count \<noteq> lineno \<Longrightarrow> rep_loop [] line lineno count = [CHR 0xFF]"
  by (subst rep_loop.simps) (simp add: Let_def to_char_EOF EOF_not_NL fputc_EOF)

lemma rep_loop_Cons:
  "count \<noteq> lineno \<Longrightarrow>
   rep_loop (b # bs) line lineno count =
     (if b = CHR 0xFF then [CHR 0xFF]
      else if b = NL \<and> count + 1 = lineno
           then b # line @ (if fst (skip_line bs) = of_char NL then [NL] else [])
                  @ (if fst (skip_line bs) \<noteq> EOF
                     then rep_loop (snd (skip_line bs)) line lineno (count + 2) else [])
      else b # rep_loop bs line lineno (if b = NL then count + 1 else count))"
proof (cases "b = CHR 0xFF")
  case True
  assume "count \<noteq> lineno"
  with True show ?thesis
    by (subst rep_loop.simps) (simp add: to_char_def EOF_def NL_def fputc_def char_of_def)
next
  case False
  assume "count \<noteq> lineno"
  with False show ?thesis
    by (subst rep_loop.simps)
       (simp add: Let_def to_char_of_char_EOF to_char_of_char_NL fputc_to_char NL_not_FF
          fputc_NL EOF_not_NL)
qed

lemma rep_loop_at:
  "rep_loop s line lineno lineno =
     line @ (if fst (skip_line s) = of_char NL then [NL] else [])
       @ (if fst (skip_line s) \<noteq> EOF
          then rep_loop (snd (skip_line s)) line lineno (lineno + 1) else [])"
  by (subst rep_loop.simps) (simp add: Let_def fputc_NL)

declare del_loop.simps(2) [simp del]

declare skip_line.simps(2) [simp del]

section \<open>count_lines\<close>

lemma count_lines_loop_eq:
  "count_lines_loop s lines first =
     lines + (if first \<and> takeWhile (\<lambda>b. b \<noteq> CHR 0xFF) s \<noteq> [] then 1 else 0)
       + count_list (takeWhile (\<lambda>b. b \<noteq> CHR 0xFF) s) NL"
proof (induction s arbitrary: lines first)
  case Nil
  show ?case by simp
next
  case (Cons b bs)
  show ?case
    unfolding count_lines_loop_Cons
    by (simp add: Cons.IH)
qed

lemma count_lines_eq:
  "count_lines s =
     (if takeWhile (\<lambda>b. b \<noteq> CHR 0xFF) s = [] then 0
      else count_list (takeWhile (\<lambda>b. b \<noteq> CHR 0xFF) s) NL + 1)"
  by (simp add: count_lines_def count_lines_loop_eq)

lemma takeWhile_no_FF: "CHR 0xFF \<notin> set s \<Longrightarrow> takeWhile (\<lambda>b. b \<noteq> CHR 0xFF) s = s"
  by (rule takeWhile_eq_all_conv [THEN iffD2]) auto

lemma count_lines_no_FF:
  "CHR 0xFF \<notin> set s \<Longrightarrow> count_lines s = (if s = [] then 0 else count_list s NL + 1)"
  by (simp add: count_lines_eq takeWhile_no_FF)

lemma count_list_takeWhile_0:
  "x \<notin> set s \<Longrightarrow> count_list (takeWhile P s) x = 0"
  by (induction s) auto

lemma count_lines_append_NL:
  assumes "F \<noteq> []" "CHR 0xFF \<notin> set F" "NL \<notin> set X"
  shows "count_lines (F @ [NL] @ X) = count_lines F + 1"
proof -
  have tw: "takeWhile (\<lambda>b. b \<noteq> CHR 0xFF) (F @ NL # X)
              = F @ NL # takeWhile (\<lambda>b. b \<noteq> CHR 0xFF) X"
  proof -
    have "\<And>x. x \<in> set F \<Longrightarrow> x \<noteq> CHR 0xFF" using assms(2) by auto
    then have "takeWhile (\<lambda>b. b \<noteq> CHR 0xFF) (F @ NL # X)
                 = F @ takeWhile (\<lambda>b. b \<noteq> CHR 0xFF) (NL # X)"
      by (rule takeWhile_append2)
    then show ?thesis using NL_not_FF by simp
  qed
  show ?thesis
    using assms(1)
    by (simp add: count_lines_eq tw takeWhile_no_FF [OF assms(2)]
        count_list_takeWhile_0 [OF assms(3)])
qed

lemma count_lines_no_NL:
  assumes "NL \<notin> set X"
  shows "count_lines X = (if X = [] \<or> hd X = CHR 0xFF then 0 else 1)"
proof -
  have "takeWhile (\<lambda>b. b \<noteq> CHR 0xFF) X = [] \<longleftrightarrow> X = [] \<or> hd X = CHR 0xFF"
    by (cases X) auto
  then show ?thesis
    by (simp add: count_lines_eq count_list_takeWhile_0 [OF assms])
qed

text \<open>
  C6, as the code has it. On a file with no byte 0xFF, \<^verbatim>\<open>count_lines\<close> gives 0 for the
  empty file and otherwise the number of terminators plus one, whether or not the last byte
  is a terminator: a terminator at the very end opens one more, empty, line. It is a total
  function: it gives a count for every file.
\<close>

theorem count_lines_terminators_plus_one:
  "CHR 0xFF \<notin> set F \<Longrightarrow>
     count_lines F = (if F = [] then 0 else count_list F NL + 1)"
  by (rule count_lines_no_FF)

theorem count_lines_terminators_plus_one_witness:
  "CHR 0xFF \<notin> set [CHR ''a'', NL, CHR ''b'', NL] \<and>
   count_lines [CHR ''a'', NL, CHR ''b'', NL] = 3"
  using count_lines_terminators_plus_one [of "[CHR ''a'', NL, CHR ''b'', NL]"]
  by (simp add: NL_def)

text \<open>
  C6 as the specification words it fails on a file that ends with a terminator: for the two
  bytes \<open>a\<close>, terminator, the specification counts one line and the code two.
\<close>

theorem count_lines_trailing_terminator_counterexample:
  "spec_line_count [CHR ''a'', NL] = 1 \<and> count_lines [CHR ''a'', NL] = 2"
  by (simp add: spec_line_count_def count_lines_eq NL_def)

section \<open>verify_lines\<close>

lemma verify_lines_loop_entry:
  assumes "NL \<notin> set e" "NUL \<notin> set e" "CHR 0xFF \<notin> set e"
  shows "verify_lines_loop (e @ NL # rest) m lines linelen first =
     (if m < linelen + length e + 1 then Inl (LineTooLong (if first then lines + 1 else lines))
      else verify_lines_loop rest m ((if first then lines + 1 else lines) + 1) 0 False)"
  using assms
proof (induction e arbitrary: lines linelen first)
  case Nil
  show ?case unfolding append_Nil verify_lines_loop_Cons by (simp add: NL_not_FF)
next
  case (Cons b e)
  then have b: "b \<noteq> NL" "b \<noteq> NUL" "b \<noteq> CHR 0xFF" by auto
  have IH: "\<And>lines linelen first. verify_lines_loop (e @ NL # rest) m lines linelen first =
     (if m < linelen + length e + 1 then Inl (LineTooLong (if first then lines + 1 else lines))
      else verify_lines_loop rest m ((if first then lines + 1 else lines) + 1) 0 False)"
    using Cons by simp
  show ?case
    unfolding append_Cons verify_lines_loop_Cons using b by (simp add: IH)
qed

lemma verify_lines_loop_entries:
  assumes "\<forall>e\<in>set es. entry_ok e"
  shows "verify_lines_loop (entries es) (LOGLEN - 2) lines 0 first =
     Inr (lines + length es + (if first \<and> es \<noteq> [] then 1 else 0))"
  using assms
proof (induction es arbitrary: lines first)
  case Nil
  show ?case by (simp add: entries_def)
next
  case (Cons e es)
  then have ok: "NL \<notin> set e" "NUL \<notin> set e" "CHR 0xFF \<notin> set e" "length e + 1 \<le> LOGLEN - 2"
    by (auto simp: entry_ok_def)
  have split: "entries (e # es) = e @ NL # entries es" by (simp add: entries_def)
  show ?case
    unfolding split verify_lines_loop_entry [OF ok(1-3)]
    using ok(4) Cons by (simp add: entries_def [symmetric])
qed

lemma verify_lines_entries:
  "\<forall>e\<in>set es. entry_ok e \<Longrightarrow>
     verify_lines (entries es) (LOGLEN - 2) = Inr (if es = [] then 0 else length es + 1)"
  by (simp add: verify_lines_def verify_lines_loop_entries)

lemma verify_lines_loop_unterminated:
  assumes "NL \<notin> set s" "NUL \<notin> set s" "CHR 0xFF \<notin> set s"
  shows "verify_lines_loop s m lines linelen first
           = Inr (if first \<and> s \<noteq> [] then lines + 1 else lines)"
  using assms
proof (induction s arbitrary: lines linelen first)
  case Nil
  show ?case by simp
next
  case (Cons b s)
  then have b: "b \<noteq> NL" "b \<noteq> NUL" "b \<noteq> CHR 0xFF" by auto
  have IH: "\<And>lines linelen first. verify_lines_loop s m lines linelen first
              = Inr (if first \<and> s \<noteq> [] then lines + 1 else lines)"
    using Cons by simp
  show ?case
    unfolding verify_lines_loop_Cons using b by (simp add: IH)
qed

text \<open>
  On a file with no NUL and no byte 0xFF, \<^verbatim>\<open>verify_lines\<close> returns a count exactly when
  every line but the last is, with its terminator, at most \<open>max_val\<close> bytes long: the
  length of the last line is never looked at.
\<close>

lemma verify_lines_loop_lines:
  "\<forall>l\<in>set ls. clean_line l \<and> NUL \<notin> set l \<Longrightarrow> ls \<noteq> [] \<Longrightarrow>
     (\<exists>k. verify_lines_loop (join_lines ls) m lines 0 first = Inr k)
       \<longleftrightarrow> (\<forall>l\<in>set (butlast ls). length l + 1 \<le> m)"
proof (induction ls arbitrary: lines first rule: join_lines.induct)
  case 1
  then show ?case by simp
next
  case (2 l)
  then have "NL \<notin> set l" "NUL \<notin> set l" "CHR 0xFF \<notin> set l"
    by (auto simp: clean_line_def)
  then show ?case by (simp add: verify_lines_loop_unterminated)
next
  case (3 l v va)
  then have l: "NL \<notin> set l" "NUL \<notin> set l" "CHR 0xFF \<notin> set l"
    and rest: "\<forall>l\<in>set (v # va). clean_line l \<and> NUL \<notin> set l"
    by (auto simp: clean_line_def)
  have IH: "\<And>lines first. (\<exists>k. verify_lines_loop (join_lines (v # va)) m lines 0 first = Inr k)
       \<longleftrightarrow> (\<forall>l\<in>set (butlast (v # va)). length l + 1 \<le> m)"
    using "3.IH" [OF rest] by simp
  have "verify_lines_loop (join_lines (l # v # va)) m lines 0 first =
     (if m < 0 + length l + 1 then Inl (LineTooLong (if first then lines + 1 else lines))
      else verify_lines_loop (join_lines (v # va)) m ((if first then lines + 1 else lines) + 1) 0 False)"
    unfolding join_lines.simps by (rule verify_lines_loop_entry [OF l])
  then show ?case
    using IH [of "(if first then lines + 1 else lines) + 1" False] by auto
qed

lemma verify_lines_accepts_iff:
  "\<forall>l\<in>set ls. clean_line l \<and> NUL \<notin> set l \<Longrightarrow> ls \<noteq> [] \<Longrightarrow>
     (\<exists>k. verify_lines (join_lines ls) m = Inr k)
       \<longleftrightarrow> (\<forall>l\<in>set (butlast ls). length l + 1 \<le> m)"
  unfolding verify_lines_def by (rule verify_lines_loop_lines)

text \<open>
  C8 on the code. A file of 3000 bytes \<open>a\<close> and no terminator is one line, longer than
  the \<^verbatim>\<open>LOGLEN - 2\<close> = 2558 bytes allowed; \<^verbatim>\<open>verify_lines\<close> accepts it and returns the
  count 1, because the length is only compared when a terminator is read.
\<close>

theorem verify_lines_accepts_long_last_line:
  "LOGLEN - 2 < length (replicate 3000 (CHR ''a''))
   \<and> verify_lines (replicate 3000 (CHR ''a'')) (LOGLEN - 2) = Inr 1"
proof -
  have "verify_lines_loop (replicate 3000 (CHR ''a'')) (LOGLEN - 2) 0 0 True
          = Inr (if True \<and> replicate 3000 (CHR ''a'') \<noteq> [] then 0 + 1 else 0)"
    by (rule verify_lines_loop_unterminated) (simp_all add: NL_def NUL_def)
  then show ?thesis by (simp add: verify_lines_def LOGLEN_def)
qed

section \<open>The store: what the log and a rewrite leave alone\<close>

lemma replace_by_temp_eq:
  "replace_by_temp st p =
     (case st p of
        None \<Rightarrow> (Some RemoveFailed, st)
      | Some old \<Rightarrow>
          (if p = TEMPF then (Some RenameFailed, st(p := None))
           else case st TEMPF of
                  None \<Rightarrow> (Some RenameFailed, st(p := None))
                | Some new \<Rightarrow> (None, (st(TEMPF := None))(p \<mapsto> new))))"
  by (auto simp: replace_by_temp_def remove_def rename_def fun_upd_twist
      split: option.splits)

lemma replace_by_temp_same_path:
  "replace_by_temp (st(TEMPF \<mapsto> x)) TEMPF = (Some RenameFailed, st(TEMPF := None))"
  by (simp add: replace_by_temp_eq)

lemma truncate_log_cases:
  "truncate_log st =
     (case st LOGF of
        None \<Rightarrow> (Some FopenFailed, st)
      | Some log \<Rightarrow>
          (case verify_lines log (LOGLEN - 2) of
             Inl e \<Rightarrow> (Some (LogTampered e), st)
           | Inr logs \<Rightarrow>
               if CLOG_BUFFER < logs
               then (None, (st(TEMPF := None))(LOGF \<mapsto> trunc_loop log logs))
               else (None, st)))"
  using LOGF_not_TEMPF
  by (auto simp: truncate_log_def replace_by_temp_eq Let_def
      split: option.splits sum.splits)

lemma truncate_log_error: "fst (truncate_log st) \<noteq> Some LineOutOfRange"
  by (simp add: truncate_log_cases split: option.splits sum.splits)

lemma change_log_error: "fst (change_log stamp st logstr) \<noteq> Some LineOutOfRange"
  by (simp add: change_log_def Let_def truncate_log_error)

lemma truncate_log_frame:
  "p \<noteq> LOGF \<Longrightarrow> p \<noteq> TEMPF \<Longrightarrow> snd (truncate_log st) p = st p"
  by (simp add: truncate_log_cases split: option.splits sum.splits)

lemma change_log_frame:
  "p \<noteq> LOGF \<Longrightarrow> p \<noteq> TEMPF \<Longrightarrow> snd (change_log stamp st logstr) p = st p"
  by (simp add: change_log_def Let_def truncate_log_frame)

lemma rewrite_file_range:
  assumes "st fpath = Some F"
  shows "(fst (rewrite_file stamp st fpath n tr msg) = Some LineOutOfRange \<longleftrightarrow> count_lines F < n)
       \<and> (count_lines F < n \<longrightarrow> snd (rewrite_file stamp st fpath n tr msg) = st)"
  using assms change_log_error
  by (auto simp: rewrite_file_def Let_def replace_by_temp_eq split: option.splits sum.splits if_splits)

lemma rewrite_file_target:
  assumes "st fpath = Some F" "\<not> count_lines F < n" "fpath \<noteq> LOGF" "fpath \<noteq> TEMPF"
  shows "snd (rewrite_file stamp st fpath n tr msg) fpath = Some (tr F)"
  using assms
  by (simp add: rewrite_file_def Let_def replace_by_temp_eq change_log_frame)

lemma append_line_target:
  assumes "st fpath = Some F" "fpath \<noteq> LOGF" "fpath \<noteq> TEMPF"
  shows "snd (append_line stamp st fpath X) fpath
           = Some (if is_empty F then F @ X else F @ [NL] @ X)"
  using assms by (simp add: append_line_def Let_def change_log_frame)

section \<open>Line numbers out of range\<close>

text \<open>
  C4, as the code has it. For a file that is there and a line number of at least 1,
  \<^verbatim>\<open>del_line\<close>, \<^verbatim>\<open>rep_line\<close> and \<^verbatim>\<open>ins_line\<close> all make the same test \<^verbatim>\<open>lineno > lines\<close>: each
  ends with the line-out-of-range error exactly when the line number is greater than the
  line count of the file, \<^verbatim>\<open>ins_line\<close> like the other two, and then the store is the one it
  started with: nothing was written.
\<close>

theorem line_out_of_range_iff:
  assumes "st fpath = Some F" and "1 \<le> n"
  shows "(fst (del_line stamp st fpath n) = Some LineOutOfRange \<longleftrightarrow> count_lines F < n)
       \<and> (fst (rep_line stamp st fpath line n) = Some LineOutOfRange \<longleftrightarrow> count_lines F < n)
       \<and> (fst (ins_line stamp c0 st fpath line n) = Some LineOutOfRange \<longleftrightarrow> count_lines F < n)
       \<and> (count_lines F < n \<longrightarrow>
            snd (del_line stamp st fpath n) = st
          \<and> snd (rep_line stamp st fpath line n) = st
          \<and> snd (ins_line stamp c0 st fpath line n) = st)"
  unfolding del_line_def rep_line_def ins_line_def
  using rewrite_file_range [of st fpath F, OF assms(1)] by simp

theorem line_out_of_range_iff_witness:
  "[''f'' \<mapsto> ''a''] ''f'' = Some ''a'' \<and> (1::nat) \<le> 2 \<and> count_lines ''a'' < 2
   \<and> fst (del_line ''t'' [''f'' \<mapsto> ''a''] ''f'' 2) = Some LineOutOfRange
   \<and> fst (rep_line ''t'' [''f'' \<mapsto> ''a''] ''f'' ''X'' 2) = Some LineOutOfRange
   \<and> fst (ins_line ''t'' 0 [''f'' \<mapsto> ''a''] ''f'' ''X'' 2) = Some LineOutOfRange
   \<and> snd (del_line ''t'' [''f'' \<mapsto> ''a''] ''f'' 2) = [''f'' \<mapsto> ''a'']
   \<and> snd (rep_line ''t'' [''f'' \<mapsto> ''a''] ''f'' ''X'' 2) = [''f'' \<mapsto> ''a'']
   \<and> snd (ins_line ''t'' 0 [''f'' \<mapsto> ''a''] ''f'' ''X'' 2) = [''f'' \<mapsto> ''a'']"
proof -
  have f: "[''f'' \<mapsto> ''a''] ''f'' = Some ''a''" by simp
  have n: "(1::nat) \<le> 2" by simp
  have c: "count_lines ''a'' < 2" by (simp add: count_lines_eq NL_def)
  show ?thesis
    using line_out_of_range_iff [where st = "[''f'' \<mapsto> ''a'']" and fpath = "''f''" and F = "''a''"
        and stamp = "''t''" and n = 2 and line = "''X''" and ?c0.0 = 0, OF f n] c f
    by simp
qed

text \<open>
  C4 as the specification words it fails on the one-line file \<open>a\<close>: line number 2 is
  within \<open>1 \<le> lineno \<le> count + 1\<close>, and \<^verbatim>\<open>ins_line\<close> ends with the line-out-of-range error.
\<close>

theorem line_range_counterexample:
  "(1::nat) \<le> 2 \<and> 2 \<le> count_lines ''a'' + 1
   \<and> fst (ins_line ''t'' 0 [''f'' \<mapsto> ''a''] ''f'' ''X'' 2) = Some LineOutOfRange"
proof -
  have f: "[''f'' \<mapsto> ''a''] ''f'' = Some ''a''" by simp
  have c: "count_lines ''a'' = 1" by (simp add: count_lines_eq NL_def)
  show ?thesis
    unfolding ins_line_def
    using rewrite_file_range [of "[''f'' \<mapsto> ''a'']" "''f''" "''a''", OF f] c by simp
qed

section \<open>The log: retention\<close>

lemma fgets_read_entry:
  "NL \<notin> set e \<Longrightarrow> length e < k \<Longrightarrow> fgets_read k (e @ NL # rest) = (e @ [NL], rest)"
proof (induction e arbitrary: k)
  case Nil
  then show ?case by (cases k) auto
next
  case (Cons b e)
  then show ?case by (cases k) auto
qed

lemma fgets_entry:
  "entry_ok e \<Longrightarrow> fgets (LOGLEN - 1) (e @ NL # rest) = Some (e @ [NL], rest)"
  by (simp add: fgets_def entry_ok_def fgets_read_entry LOGLEN_def)

lemma fgets_Nil: "fgets n [] = None"
  by (cases "n - 1") (simp_all add: fgets_def)

lemma cstr_entry: "entry_ok e \<Longrightarrow> cstr (e @ [NL]) = e @ [NL]"
  unfolding cstr_def
  by (rule takeWhile_eq_all_conv [THEN iffD2]) (auto simp: entry_ok_def NUL_not_NL [symmetric])

lemma trunc_loop_entry:
  assumes "entry_ok e"
  shows "trunc_loop (e @ NL # rest) logs =
     (if CLOG_BUFFER - 10 < logs then trunc_loop rest (logs - 1)
      else (e @ [NL]) @ trunc_loop rest logs)"
  by (subst trunc_loop.simps)
     (simp only: fgets_entry [OF assms] cstr_entry [OF assms] option.case prod.case)

lemma trunc_loop_entries:
  "\<forall>e\<in>set es. entry_ok e \<Longrightarrow>
     trunc_loop (entries es) logs = entries (drop (logs - (CLOG_BUFFER - 10)) es)"
proof (induction es arbitrary: logs)
  case Nil
  show ?case by (simp add: trunc_loop.simps [of "[]"] entries_def fgets_Nil)
next
  case (Cons e es)
  then have ok: "entry_ok e" and rest: "\<forall>e\<in>set es. entry_ok e" by auto
  have split: "entries (e # es) = e @ NL # entries es" by (simp add: entries_def)
  show ?case
  proof (cases "CLOG_BUFFER - 10 < logs")
    case True
    then have "logs - (CLOG_BUFFER - 10) = Suc (logs - 1 - (CLOG_BUFFER - 10))" by simp
    then have "drop (logs - (CLOG_BUFFER - 10)) (e # es) = drop (logs - 1 - (CLOG_BUFFER - 10)) es"
      by (simp only: drop_Suc_Cons)
    then show ?thesis
      unfolding split trunc_loop_entry [OF ok] using True
      by (simp only: Cons.IH [OF rest] if_True)
  next
    case False
    then have d: "logs - (CLOG_BUFFER - 10) = 0" by simp
    have "trunc_loop (entries es) logs = entries es"
      using Cons.IH [OF rest, of logs] by (simp only: d drop_0)
    then show ?thesis
      unfolding split trunc_loop_entry [OF ok] using False
      by (simp add: d entries_def)
  qed
qed

lemma truncate_log_entries:
  assumes "st LOGF = Some (entries es)" "\<forall>e\<in>set es. entry_ok e" "CLOG_BUFFER \<le> length es"
  shows "truncate_log st =
           (None, (st(TEMPF := None))(LOGF \<mapsto> entries (drop (length es - (CLOG_BUFFER - 11)) es)))"
proof -
  have ne: "es \<noteq> []" using assms(3) by (auto simp: CLOG_BUFFER_def)
  have d: "Suc (length es) - (CLOG_BUFFER - 10) = length es - (CLOG_BUFFER - 11)"
    using assms(3) by (simp add: CLOG_BUFFER_def)
  show ?thesis
    using assms ne
    by (simp add: truncate_log_cases verify_lines_entries trunc_loop_entries d)
qed

lemma entries_snoc: "entries (es @ [e]) = entries es @ e @ [NL]"
  by (simp add: entries_def)

lemma change_log_entries:
  assumes "st LOGF = Some (entries es)" "\<forall>e\<in>set es. entry_ok e"
    and "entry_ok (''['' @ stamp @ ''] '' @ logstr)" "CLOG_BUFFER \<le> length es + 1"
  shows "snd (change_log stamp st logstr) LOGF =
           Some (entries (drop (length es + 1 - (CLOG_BUFFER - 11)) (es @ [''['' @ stamp @ ''] '' @ logstr])))"
proof -
  let ?new = "''['' @ stamp @ ''] '' @ logstr"
  let ?st1 = "st(LOGF \<mapsto> entries (es @ [?new]))"
  have 1: "?st1 LOGF = Some (entries (es @ [?new]))" by simp
  have 2: "\<forall>e\<in>set (es @ [?new]). entry_ok e" using assms(2,3) by auto
  have 3: "CLOG_BUFFER \<le> length (es @ [?new])" using assms(4) by simp
  have "change_log stamp st logstr = truncate_log ?st1"
    using assms(1) by (simp add: change_log_def entries_snoc)
  then show ?thesis
    unfolding truncate_log_entries [where st = ?st1 and es = "es @ [?new]", OF 1 2 3] by simp
qed

lemma truncate_log_entries_small:
  assumes "st LOGF = Some (entries es)" "\<forall>e\<in>set es. entry_ok e" "length es < CLOG_BUFFER"
  shows "truncate_log st = (None, st)"
  using assms by (simp add: truncate_log_cases verify_lines_entries)

lemma entry_ok_e: "entry_ok ''e''"
  by (simp add: entry_ok_def NL_def NUL_def LOGLEN_def)

text \<open>
  C10. When the log passes \<^verbatim>\<open>verify_lines\<close> with the count \<open>n\<close>: if \<open>n\<close> is at most
  \<^verbatim>\<open>CLOG_BUFFER\<close>, \<^verbatim>\<open>truncate_log\<close> ends without error in the store it started with (the log
  has the same bytes, no temporary file appears); and whenever the store it leaves is
  another one, \<open>n\<close> is above \<^verbatim>\<open>CLOG_BUFFER\<close>.
\<close>

theorem truncate_log_below_cap_no_write:
  assumes "st LOGF = Some log" and "verify_lines log (LOGLEN - 2) = Inr n"
  shows "(n \<le> CLOG_BUFFER \<longrightarrow> truncate_log st = (None, st))
       \<and> (snd (truncate_log st) \<noteq> st \<longrightarrow> CLOG_BUFFER < n)"
  using assms by (simp add: truncate_log_cases)

theorem truncate_log_below_cap_no_write_witness:
  "[LOGF \<mapsto> entries [''e'']] LOGF = Some (entries [''e''])
   \<and> verify_lines (entries [''e'']) (LOGLEN - 2) = Inr 2 \<and> 2 \<le> CLOG_BUFFER
   \<and> truncate_log [LOGF \<mapsto> entries [''e'']] = (None, [LOGF \<mapsto> entries [''e'']])
   \<and> verify_lines (entries (replicate 200 ''e'')) (LOGLEN - 2) = Inr 201
   \<and> snd (truncate_log [LOGF \<mapsto> entries (replicate 200 ''e'')]) \<noteq> [LOGF \<mapsto> entries (replicate 200 ''e'')]
   \<and> CLOG_BUFFER < 201"
proof -
  let ?small = "[LOGF \<mapsto> entries [''e'']]"
  let ?big = "[LOGF \<mapsto> entries (replicate 200 ''e'')]"
  have a1: "?small LOGF = Some (entries [''e''])" by simp
  have a2: "verify_lines (entries [''e'']) (LOGLEN - 2) = Inr 2"
    using verify_lines_entries [of "[''e'']"] entry_ok_e by simp
  have a3: "(2::nat) \<le> CLOG_BUFFER" by (simp add: CLOG_BUFFER_def)
  have b1: "?big LOGF = Some (entries (replicate 200 ''e''))" by simp
  have ok: "\<forall>e\<in>set (replicate 200 ''e''). entry_ok e" using entry_ok_e by simp
  have b2: "verify_lines (entries (replicate 200 ''e'')) (LOGLEN - 2) = Inr 201"
    using verify_lines_entries [OF ok] by simp
  have cap: "CLOG_BUFFER \<le> length (replicate 200 ''e'')" by (simp add: CLOG_BUFFER_def)
  have "snd (truncate_log ?big) LOGF
          = Some (entries (drop (length (replicate 200 ''e'') - (CLOG_BUFFER - 11)) (replicate 200 ''e'')))"
    by (simp add: truncate_log_entries [where st = ?big and es = "replicate 200 ''e''", OF b1 ok cap])
  then have "snd (truncate_log ?big) LOGF = Some (entries (replicate 189 ''e''))"
    by (simp add: CLOG_BUFFER_def)
  moreover have "length (entries (replicate 189 ''e'')) \<noteq> length (entries (replicate 200 ''e''))"
    by (simp add: entries_def length_concat sum_list_replicate)
  ultimately have b3: "snd (truncate_log ?big) \<noteq> ?big"
    by (metis b1 option.inject)
  show ?thesis
    using truncate_log_below_cap_no_write [where st = ?small and log = "entries [''e'']" and n = 2,
        OF a1 a2]
      truncate_log_below_cap_no_write [where st = ?big and log = "entries (replicate 200 ''e'')"
        and n = 201, OF b1 b2]
      a1 a2 a3 b2 b3
    by simp
qed

text \<open>
  C7 on the code. The log holds the well-formed entries \<open>es\<close>, and \<^verbatim>\<open>change_log\<close> appends
  one more, which makes their number \<^verbatim>\<open>CLOG_BUFFER\<close> or more. \<^verbatim>\<open>verify_lines\<close> counts one
  more line than there are terminated entries, so the rewrite happens when the number of
  entries is above \<^verbatim>\<open>CLOG_BUFFER\<close> and already when it reaches it, and it keeps the newest
  \<^verbatim>\<open>CLOG_BUFFER - 11\<close> entries, in their order: 189, not 190.
\<close>

theorem change_log_retention_keeps_189:
  assumes "st LOGF = Some (entries es)" and "\<forall>e\<in>set es. entry_ok e"
    and "new = ''['' @ stamp @ ''] '' @ logstr" and "entry_ok new"
    and "CLOG_BUFFER \<le> length es + 1"
  shows "snd (change_log stamp st logstr) LOGF =
           Some (entries (drop (length es + 1 - (CLOG_BUFFER - 11)) (es @ [new])))
       \<and> length (drop (length es + 1 - (CLOG_BUFFER - 11)) (es @ [new])) = 189"
proof -
  have "snd (change_log stamp st logstr) LOGF =
           Some (entries (drop (length es + 1 - (CLOG_BUFFER - 11)) (es @ [new])))"
    using change_log_entries [of st es stamp logstr] assms by simp
  moreover have "length (drop (length es + 1 - (CLOG_BUFFER - 11)) (es @ [new])) = 189"
    using assms(5) by (simp add: CLOG_BUFFER_def)
  ultimately show ?thesis by simp
qed

theorem change_log_retention_keeps_189_witness:
  "snd (change_log ''t'' [LOGF \<mapsto> entries (replicate 200 ''e'')] ''m'') LOGF =
     Some (entries (replicate 188 ''e'' @ [''[t] m'']))
   \<and> length (replicate 188 ''e'' @ [''[t] m'']) = 189"
proof -
  have 1: "[LOGF \<mapsto> entries (replicate 200 ''e'')] LOGF = Some (entries (replicate 200 ''e''))"
    by simp
  have 2: "\<forall>e\<in>set (replicate 200 ''e''). entry_ok e"
    using entry_ok_e by simp
  have 3: "''[t] m'' = ''['' @ ''t'' @ ''] '' @ ''m''" by simp
  have 4: "entry_ok ''[t] m''"
    by (simp add: entry_ok_def NL_def NUL_def LOGLEN_def)
  have 5: "CLOG_BUFFER \<le> length (replicate 200 ''e'') + 1"
    by (simp add: CLOG_BUFFER_def)
  have d: "drop (length (replicate 200 ''e'') + 1 - (CLOG_BUFFER - 11)) (replicate 200 ''e'' @ [''[t] m''])
             = replicate 188 ''e'' @ [''[t] m'']"
    by (simp add: CLOG_BUFFER_def)
  show ?thesis
    using change_log_retention_keeps_189 [where st = "[LOGF \<mapsto> entries (replicate 200 ''e'')]"
        and es = "replicate 200 ''e''" and new = "''[t] m''" and stamp = "''t''"
        and logstr = "''m''", OF 1 2 3 4 5]
    unfolding d by simp
qed

section \<open>The log: the filter of display_log\<close>























section \<open>append_line\<close>

text \<open>
  Where \<^verbatim>\<open>append_line\<close> does what its comment says. The file \<open>F\<close> is there, is not the log
  or the temporary file, holds no byte 0xFF and is empty or at least two bytes long; \<open>X\<close>
  holds no terminator and no byte 0xFF. Then the file becomes \<open>X\<close> alone when \<open>F\<close> was
  empty, and \<open>F\<close>, a terminator, \<open>X\<close> otherwise, and its line count is the count before plus
  one when \<open>F\<close> was not empty.
\<close>

lemma append_line_not_one_byte:
  assumes "st fpath = Some F" and "fpath \<noteq> LOGF" and "fpath \<noteq> TEMPF"
    and "length F \<noteq> 1" and "CHR 0xFF \<notin> set F" and "NL \<notin> set X" and "CHR 0xFF \<notin> set X"
  shows "snd (append_line stamp st fpath X) fpath = Some (if F = [] then X else F @ [NL] @ X)
       \<and> count_lines (if F = [] then X else F @ [NL] @ X)
           = (if F = [] then (if X = [] then 0 else 1) else count_lines F + 1)"
proof (cases "F = []")
  case True
  have "X \<noteq> [] \<Longrightarrow> hd X \<noteq> CHR 0xFF"
    using assms(7) by (cases X) auto
  then show ?thesis
    using True append_line_target [where st = st and fpath = fpath and F = F, OF assms(1-3)]
      count_lines_no_NL [OF assms(6)]
    by (auto simp: is_empty_def)
next
  case False
  with assms(4) have "\<not> is_empty F"
    by (cases F) (auto simp: is_empty_def)
  then show ?thesis
    using False append_line_target [where st = st and fpath = fpath and F = F, OF assms(1-3)]
      count_lines_append_NL [OF False assms(5,6)]
    by simp
qed

text \<open>
  C5 on the code. The file is the one byte \<open>a\<close>: it is not empty and has one line.
  \<^verbatim>\<open>append_line\<close> of \<open>X\<close> leaves the two bytes \<open>aX\<close>: \<^verbatim>\<open>is_empty\<close> tests
  \<^verbatim>\<open>sb.st_size <= 1\<close> and takes the file for an empty one, so no terminator is written
  before \<open>X\<close> and the file still has one line, not two.
\<close>

theorem append_line_one_byte_file_no_terminator:
  "''a'' \<noteq> [] \<and> count_lines ''a'' = 1
   \<and> snd (append_line ''t'' [''f'' \<mapsto> ''a''] ''f'' ''X'') ''f'' = Some ''aX''
   \<and> count_lines ''aX'' = 1"
proof -
  have p: "''f'' \<noteq> LOGF" "''f'' \<noteq> TEMPF" by (simp_all add: LOGF_def TEMPF_def)
  have 1: "[''f'' \<mapsto> ''a''] ''f'' = Some ''a''" by simp
  show ?thesis
    using append_line_target [where st = "[''f'' \<mapsto> ''a'']" and fpath = "''f''" and F = "''a''"
        and X = "''X''" and stamp = "''t''", OF 1 p]
    by (simp add: is_empty_def count_lines_eq NL_def)
qed

section \<open>Files as lines: what the three loops write\<close>

lemma join_lines_Cons:
  "join_lines (l # ls) = l @ (if ls = [] then [] else NL # join_lines ls)"
  by (cases ls) simp_all

lemma join_lines_append:
  "join_lines (A @ x # B) =
     concat (map (\<lambda>l. l @ [NL]) A) @ x @ (if B = [] then [] else NL # join_lines B)"
  by (induction A) (simp_all add: join_lines_Cons)

text \<open>Every file with no byte 0xFF is made of such lines, and \<^verbatim>\<open>count_lines\<close> counts
  them when the file is not empty.\<close>

lemma count_list_join_lines:
  "\<forall>l\<in>set ls. clean_line l \<Longrightarrow> ls \<noteq> [] \<Longrightarrow>
     count_list (join_lines ls) NL = length ls - 1"
proof (induction ls rule: join_lines.induct)
  case 1
  then show ?case by simp
next
  case (2 l)
  then show ?case by (simp add: clean_line_def)
next
  case (3 l v va)
  then show ?case by (simp add: clean_line_def)
qed

lemma join_lines_no_FF:
  "\<forall>l\<in>set ls. clean_line l \<Longrightarrow> CHR 0xFF \<notin> set (join_lines ls)"
  using NL_not_FF
  by (induction ls rule: join_lines.induct) (auto simp: clean_line_def)

lemma count_lines_join_lines:
  assumes "\<forall>l\<in>set ls. clean_line l" "join_lines ls \<noteq> []"
  shows "count_lines (join_lines ls) = length ls"
proof -
  from assms(2) have ne: "ls \<noteq> []" by auto
  then have "0 < length ls" by simp
  then show ?thesis
    using assms(2) count_list_join_lines [OF assms(1) ne]
    by (simp add: count_lines_no_FF [OF join_lines_no_FF [OF assms(1)]])
qed

lemma file_as_lines:
  "CHR 0xFF \<notin> set F \<Longrightarrow> \<exists>ls. ls \<noteq> [] \<and> (\<forall>l\<in>set ls. clean_line l) \<and> F = join_lines ls"
proof (induction F)
  case Nil
  have "[[]] \<noteq> [] \<and> (\<forall>l\<in>set [[]]. clean_line l) \<and> [] = join_lines [[]]"
    by (simp add: clean_line_def)
  then show ?case by blast
next
  case (Cons b F)
  then obtain ls where ls: "ls \<noteq> []" "\<forall>l\<in>set ls. clean_line l" "F = join_lines ls"
    by auto
  then obtain l rest where lr: "ls = l # rest" by (cases ls) auto
  show ?case
  proof (cases "b = NL")
    case True
    have "[] # ls \<noteq> [] \<and> (\<forall>l\<in>set ([] # ls). clean_line l) \<and> b # F = join_lines ([] # ls)"
      using ls lr True by (simp add: clean_line_def)
    then show ?thesis by blast
  next
    case False
    have "(b # l) # rest \<noteq> [] \<and> (\<forall>l\<in>set ((b # l) # rest). clean_line l)
            \<and> b # F = join_lines ((b # l) # rest)"
      using ls lr False Cons.prems by (auto simp: clean_line_def join_lines_Cons)
    then show ?thesis by blast
  qed
qed

subsection \<open>del_line\<close>

lemma del_loop_NL:
  "del_loop (NL # rest) n count =
     (if count + 1 \<noteq> n \<and> count \<noteq> n then [NL] else []) @ del_loop rest n (count + 1)"
  unfolding del_loop_Cons using NL_not_FF by simp

lemma del_loop_clean:
  "clean_line l \<Longrightarrow>
     del_loop (l @ rest) n count = (if count \<noteq> n then l else []) @ del_loop rest n count"
proof (induction l)
  case Nil
  show ?case by simp
next
  case (Cons b l)
  then have b: "b \<noteq> NL" "b \<noteq> CHR 0xFF" and l: "clean_line l"
    by (auto simp: clean_line_def)
  show ?case
    unfolding append_Cons del_loop_Cons using b by (simp add: Cons.IH [OF l])
qed

lemma del_loop_clean_end:
  "clean_line l \<Longrightarrow> del_loop l n count = (if count \<noteq> n then l else [])"
  using del_loop_clean [of l "[]" n count] by simp

lemma del_loop_copy:
  "\<forall>l\<in>set ls. clean_line l \<Longrightarrow> n < count \<Longrightarrow> del_loop (join_lines ls) n count = join_lines ls"
proof (induction ls arbitrary: count)
  case Nil
  show ?case by simp
next
  case (Cons l ls)
  then have l: "clean_line l" and ls: "\<forall>l\<in>set ls. clean_line l" by auto
  show ?case
  proof (cases "ls = []")
    case True
    then show ?thesis using Cons.prems(2) by (simp add: del_loop_clean_end [OF l])
  next
    case False
    have "del_loop (join_lines ls) n (count + 1) = join_lines ls"
      using Cons.IH [OF ls, of "count + 1"] Cons.prems(2) by simp
    then show ?thesis
      using False Cons.prems(2)
      by (simp add: join_lines_Cons del_loop_clean [OF l] del_loop_NL)
  qed
qed

lemma del_loop_at:
  assumes "clean_line l" "\<forall>l\<in>set ls. clean_line l"
  shows "del_loop (join_lines (l # ls)) n n = join_lines ls"
proof (cases "ls = []")
  case True
  then show ?thesis by (simp add: del_loop_clean_end [OF assms(1)])
next
  case False
  have "del_loop (join_lines ls) n (n + 1) = join_lines ls"
    by (rule del_loop_copy [OF assms(2)]) simp
  then show ?thesis
    using False by (simp add: join_lines_Cons del_loop_clean [OF assms(1)] del_loop_NL)
qed

text \<open>What the loop of \<^verbatim>\<open>del_line\<close> writes when it starts a line at \<open>count\<close> below
  \<open>lineno\<close>: the lines before line \<open>lineno - 1\<close> with their terminators, then line
  \<open>lineno - 1\<close> without its terminator, then everything after line \<open>lineno\<close>.\<close>

lemma del_loop_before:
  "\<forall>l\<in>set ls. clean_line l \<Longrightarrow> Suc k < length ls \<Longrightarrow>
     del_loop (join_lines ls) (count + Suc k) count =
       concat (map (\<lambda>l. l @ [NL]) (take k ls)) @ ls ! k @ join_lines (drop (Suc (Suc k)) ls)"
proof (induction ls arbitrary: count k)
  case Nil
  then show ?case by simp
next
  case (Cons l ls)
  then have l: "clean_line l" and ls: "\<forall>l\<in>set ls. clean_line l" by auto
  from Cons.prems(2) have ne: "ls \<noteq> []" by auto
  show ?case
  proof (cases k)
    case 0
    obtain d rest where d: "ls = d # rest" using ne by (cases ls) auto
    have "del_loop (join_lines (d # rest)) (count + 1) (count + 1) = join_lines rest"
      using ls d by (intro del_loop_at) auto
    then show ?thesis
      using 0 d by (simp add: join_lines_Cons [of l] del_loop_clean [OF l] del_loop_NL)
  next
    case (Suc k')
    with Cons.prems(2) have "Suc k' < length ls" by simp
    from Cons.IH [OF ls this, of "count + 1"]
    have "del_loop (join_lines ls) (count + Suc k) (count + 1) =
       concat (map (\<lambda>l. l @ [NL]) (take k' ls)) @ ls ! k' @ join_lines (drop (Suc (Suc k')) ls)"
      using Suc by simp
    then show ?thesis
      using Suc ne by (simp add: join_lines_Cons [of l] del_loop_clean [OF l] del_loop_NL)
  qed
qed

lemma del_loop_lines:
  assumes "\<forall>l\<in>set ls. clean_line l" "1 \<le> n" "n \<le> length ls"
  shows "del_loop (join_lines ls) n 1 =
     (if n = 1 then join_lines (tl ls)
      else concat (map (\<lambda>l. l @ [NL]) (take (n - 2) ls)) @ ls ! (n - 2) @ join_lines (drop n ls))"
proof (cases "n = 1")
  case True
  obtain l rest where "ls = l # rest" using assms(2,3) by (cases ls) auto
  with True assms(1) show ?thesis
    using del_loop_at [of l rest 1] by simp
next
  case False
  with assms obtain k where k: "n = Suc (Suc k)" by (cases n; cases "n - 1") auto
  with assms(3) have "Suc k < length ls" by simp
  from del_loop_before [OF assms(1) this, of 1] k show ?thesis by simp
qed

text \<open>The loop of \<^verbatim>\<open>del_line\<close> writes the file without line \<open>n\<close> exactly when line \<open>n\<close>
  is the first or the last line.\<close>

lemma del_loop_right_iff:
  assumes "\<forall>l\<in>set ls. clean_line l" "1 \<le> n" "n \<le> length ls"
  shows "del_loop (join_lines ls) n 1 = join_lines (take (n - 1) ls @ drop n ls)
           \<longleftrightarrow> n = 1 \<or> n = length ls"
proof (cases "n = 1")
  case True
  then show ?thesis
    using del_loop_lines [OF assms] by (simp add: drop_Suc)
next
  case False
  with assms obtain k where k: "n = Suc (Suc k)" by (cases n; cases "n - 1") auto
  with assms(3) have kl: "k < length ls" by simp
  have t: "take (n - 1) ls @ drop n ls = take k ls @ ls ! k # drop n ls"
    using k kl by (simp add: take_Suc_conv_app_nth)
  have "join_lines (take (n - 1) ls @ drop n ls) =
          concat (map (\<lambda>l. l @ [NL]) (take k ls)) @ ls ! k
            @ (if drop n ls = [] then [] else NL # join_lines (drop n ls))"
    unfolding t by (rule join_lines_append)
  moreover have "del_loop (join_lines ls) n 1 =
          concat (map (\<lambda>l. l @ [NL]) (take k ls)) @ ls ! k @ join_lines (drop n ls)"
    using del_loop_lines [OF assms] k by simp
  ultimately have "del_loop (join_lines ls) n 1 = join_lines (take (n - 1) ls @ drop n ls)
      \<longleftrightarrow> drop n ls = []"
    by auto
  then show ?thesis using False assms(3) by auto
qed

lemma del_loop_abc: "del_loop [CHR ''a'', NL, CHR ''b'', NL, CHR ''c''] 2 1 = ''ac''"
  by (simp add: del_loop_Cons NL_def del: del_loop.simps(2))

text \<open>
  C1 on the code. The file is the three lines \<open>a\<close>, \<open>b\<close>, \<open>c\<close>, with a terminator after
  \<open>a\<close> and after \<open>b\<close>. \<^verbatim>\<open>del_line\<close> with line number 2 leaves the two bytes \<open>ac\<close>: the
  terminator before line 2 is dropped as well as the one after it, so lines 1 and 3 are
  joined and the file has one line, not two.
\<close>

theorem del_line_middle_joins_neighbours:
  "count_lines [CHR ''a'', NL, CHR ''b'', NL, CHR ''c''] = 3
   \<and> snd (del_line ''t'' [''f'' \<mapsto> [CHR ''a'', NL, CHR ''b'', NL, CHR ''c'']] ''f'' 2) ''f''
       = Some ''ac''
   \<and> count_lines ''ac'' = 1"
proof -
  have c: "count_lines [CHR ''a'', NL, CHR ''b'', NL, CHR ''c''] = 3"
    by (simp add: count_lines_eq NL_def)
  have f: "[''f'' \<mapsto> [CHR ''a'', NL, CHR ''b'', NL, CHR ''c'']] ''f''
             = Some [CHR ''a'', NL, CHR ''b'', NL, CHR ''c'']"
    by simp
  have "snd (del_line ''t'' [''f'' \<mapsto> [CHR ''a'', NL, CHR ''b'', NL, CHR ''c'']] ''f'' 2) ''f''
          = Some (del_loop [CHR ''a'', NL, CHR ''b'', NL, CHR ''c''] 2 1)"
    unfolding del_line_def
    by (rule rewrite_file_target [where F = "[CHR ''a'', NL, CHR ''b'', NL, CHR ''c'']"])
       (simp_all add: c file_not_log)
  moreover have "count_lines ''ac'' = 1" by (simp add: count_lines_eq NL_def)
  ultimately show ?thesis using c by (simp only: del_loop_abc simp_thms)
qed

subsection \<open>ins_line, then del_line\<close>

lemma ins_loop_c_irrelevant:
  "count \<noteq> n \<Longrightarrow> ins_loop s X n count c = ins_loop s X n count c'"
  by (cases s) (simp_all add: ins_loop_Nil ins_loop_Cons)

lemma ins_loop_NL:
  "count \<noteq> n \<Longrightarrow>
     ins_loop (NL # rest) X n count c =
       NL # (if count + 1 = n then X @ [NL] @ ins_loop rest X n (count + 2) c
             else ins_loop rest X n (count + 1) c)"
proof (cases "count + 1 = n")
  case True
  assume c: "count \<noteq> n"
  from True have "count + 2 \<noteq> n" by simp
  from ins_loop_c_irrelevant [OF this, of rest X "to_char (of_char NL)" c]
  show ?thesis
    using True c NL_not_FF by (simp add: ins_loop_Cons)
next
  case False
  assume c: "count \<noteq> n"
  from ins_loop_c_irrelevant [OF False, of rest X "to_char (of_char NL)" c]
  show ?thesis
    using False c NL_not_FF by (simp add: ins_loop_Cons)
qed

lemma ins_loop_clean:
  "clean_line l \<Longrightarrow> count \<noteq> n \<Longrightarrow> ins_loop (l @ rest) X n count c = l @ ins_loop rest X n count c"
proof (induction l arbitrary: c)
  case Nil
  show ?case by simp
next
  case (Cons b l)
  then have b: "b \<noteq> NL" "b \<noteq> CHR 0xFF" and l: "clean_line l"
    by (auto simp: clean_line_def)
  have "ins_loop (l @ rest) X n count (to_char (of_char b)) = l @ ins_loop rest X n count c"
    using Cons.IH [OF l Cons.prems(2), of "to_char (of_char b)"]
      ins_loop_c_irrelevant [OF Cons.prems(2), of rest X "to_char (of_char b)" c]
    by simp
  then show ?case
    using b Cons.prems(2) by (simp add: ins_loop_Cons)
qed

lemma ins_loop_copy:
  "\<forall>l\<in>set ls. clean_line l \<Longrightarrow> n < count \<Longrightarrow> ins_loop (join_lines ls) X n count c = join_lines ls"
proof (induction ls arbitrary: count)
  case Nil
  then show ?case by (simp add: ins_loop_Nil)
next
  case (Cons l ls)
  then have l: "clean_line l" and ls: "\<forall>l\<in>set ls. clean_line l" by auto
  have c: "count \<noteq> n" "count + 1 \<noteq> n" using Cons.prems(2) by auto
  show ?case
  proof (cases "ls = []")
    case True
    then show ?thesis
      using ins_loop_clean [OF l c(1), of "[]" X c] c(1) by (simp add: ins_loop_Nil)
  next
    case False
    have "ins_loop (join_lines ls) X n (count + 1) c = join_lines ls"
      using Cons.IH [OF ls, of "count + 1"] Cons.prems(2) by simp
    then show ?thesis
      using False c
      by (simp add: join_lines_Cons [of l] ins_loop_clean [OF l c(1)] ins_loop_NL)
  qed
qed

lemma ins_loop_before:
  "\<forall>l\<in>set ls. clean_line l \<Longrightarrow> Suc k < length ls \<Longrightarrow>
     ins_loop (join_lines ls) X (count + Suc k) count c =
       join_lines (take (Suc k) ls @ [X] @ drop (Suc k) ls)"
proof (induction ls arbitrary: count k)
  case Nil
  then show ?case by simp
next
  case (Cons l ls)
  then have l: "clean_line l" and ls: "\<forall>l\<in>set ls. clean_line l" by auto
  from Cons.prems(2) have ne: "ls \<noteq> []" by auto
  define n where "n = count + Suc k"
  have c: "count \<noteq> n" by (simp add: n_def)
  have first: "ins_loop (join_lines (l # ls)) X n count c
                 = l @ ins_loop (NL # join_lines ls) X n count c"
    using ne by (simp add: join_lines_Cons [of l] ins_loop_clean [OF l c])
  show ?case
  proof (cases k)
    case 0
    then have n1: "count + 1 = n" by (simp add: n_def)
    have "ins_loop (join_lines ls) X n (count + 2) c = join_lines ls"
      by (rule ins_loop_copy [OF ls]) (simp add: n_def 0)
    then have "ins_loop (join_lines (l # ls)) X n count c = l @ NL # X @ NL # join_lines ls"
      unfolding first ins_loop_NL [OF c] using n1 by simp
    then show ?thesis
      unfolding n_def using 0 ne by (simp add: join_lines_Cons [of l] join_lines_Cons [of X])
  next
    case (Suc k')
    with Cons.prems(2) have k': "Suc k' < length ls" by simp
    have n1: "count + 1 \<noteq> n" by (simp add: n_def Suc)
    have "n = (count + 1) + Suc k'" by (simp add: n_def Suc)
    with Cons.IH [OF ls k', of "count + 1"]
    have IH: "ins_loop (join_lines ls) X n (count + 1) c =
            join_lines (take (Suc k') ls @ [X] @ drop (Suc k') ls)"
      by simp
    have "ins_loop (join_lines (l # ls)) X n count c
            = l @ NL # join_lines (take (Suc k') ls @ [X] @ drop (Suc k') ls)"
      unfolding first ins_loop_NL [OF c] using n1 IH by simp
    then show ?thesis
      unfolding n_def using Suc by (simp add: join_lines_Cons [of l])
  qed
qed

text \<open>The loop of \<^verbatim>\<open>ins_line\<close> writes the file with \<open>X\<close> as its new line \<open>n\<close>; for
  \<open>n = 1\<close> the rest of the file only follows when the variable \<^verbatim>\<open>c\<close>, not yet assigned,
  does not happen to hold \<^verbatim>\<open>EOF\<close>.\<close>

lemma ins_loop_lines:
  assumes "\<forall>l\<in>set ls. clean_line l" "1 \<le> n" "n \<le> length ls"
  shows "ins_loop (join_lines ls) X n 1 c0 =
     (if n = 1 then X @ [NL] @ (if c0 \<noteq> EOF then join_lines ls else [])
      else join_lines (take (n - 1) ls @ [X] @ drop (n - 1) ls))"
proof (cases "n = 1")
  case True
  have "ins_loop (join_lines ls) X 1 (1 + 1) c0 = join_lines ls"
    by (rule ins_loop_copy [OF assms(1)]) simp
  moreover have "ins_loop (join_lines ls) X 1 1 c0 =
      X @ [NL] @ (if c0 \<noteq> EOF then ins_loop (join_lines ls) X 1 (1 + 1) c0 else [])"
    by (rule ins_loop_at)
  ultimately show ?thesis using True by simp
next
  case False
  with assms obtain k where k: "n = Suc (Suc k)" by (cases n; cases "n - 1") auto
  with assms(3) have "Suc k < length ls" by simp
  from ins_loop_before [OF assms(1) this, of X 1 c0] k show ?thesis by simp
qed

text \<open>Inserting a line at \<open>n\<close> and deleting line \<open>n\<close> again gives the file back exactly
  when \<open>n = 1\<close>.\<close>

lemma ins_then_del_iff:
  assumes "\<forall>l\<in>set ls. clean_line l" "clean_line X" "1 \<le> n" "n \<le> length ls"
    and "n = 1 \<longrightarrow> c0 \<noteq> EOF"
  shows "del_loop (ins_loop (join_lines ls) X n 1 c0) n 1 = join_lines ls \<longleftrightarrow> n = 1"
proof -
  let ?ls' = "take (n - 1) ls @ [X] @ drop (n - 1) ls"
  have ins: "ins_loop (join_lines ls) X n 1 c0 = join_lines ?ls'"
  proof (cases "n = 1")
    case True
    with assms(4) have "ls \<noteq> []" by auto
    with True assms(5) show ?thesis
      using ins_loop_lines [OF assms(1,3,4), of X c0] by (simp add: join_lines_Cons [of X])
  next
    case False
    then show ?thesis using ins_loop_lines [OF assms(1,3,4), of X c0] by simp
  qed
  have clean': "\<forall>l\<in>set ?ls'. clean_line l"
    using assms(1,2) by (auto dest: in_set_takeD in_set_dropD)
  have len: "n \<le> length ?ls'" "n \<noteq> length ?ls'" using assms(3,4) by auto
  have restore: "take (n - 1) ?ls' @ drop n ?ls' = ls"
  proof -
    have "length (take (n - 1) ls) = n - 1" using assms(4) by simp
    then have "take (n - 1) ?ls' = take (n - 1) ls"
      by simp
    moreover have "drop n ?ls' = drop (n - 1) ls"
    proof -
      have "n = length (take (n - 1) ls @ [X])" using assms(3,4) by simp
      then show ?thesis
        by (metis append.assoc append_eq_conv_conj)
    qed
    ultimately show ?thesis by simp
  qed
  from del_loop_right_iff [OF clean' assms(3) len(1)] restore len(2)
  show ?thesis by (simp only: ins simp_thms)
qed

lemma ins_loop_ab:
  "ins_loop [CHR ''a'', NL, CHR ''b''] ''X'' 2 1 c0 = [CHR ''a'', NL, CHR ''X'', NL, CHR ''b'']"
  by (simp add: ins_loop_Cons ins_loop_Nil NL_def)

lemma del_loop_aXb: "del_loop [CHR ''a'', NL, CHR ''X'', NL, CHR ''b''] 2 1 = ''ab''"
  by (simp add: del_loop_Cons NL_def del: del_loop.simps(2))

text \<open>
  C2 on the code. The file is the two lines \<open>a\<close>, \<open>b\<close>. \<^verbatim>\<open>ins_line\<close> of \<open>X\<close> at line 2
  gives the lines \<open>a\<close>, \<open>X\<close>, \<open>b\<close>; \<^verbatim>\<open>del_line\<close> of line 2 of that file then leaves the
  two bytes \<open>ab\<close>, not the file it started from.
\<close>

theorem ins_then_del_does_not_restore:
  "snd (ins_line ''t'' c0 [''f'' \<mapsto> [CHR ''a'', NL, CHR ''b'']] ''f'' ''X'' 2) ''f''
       = Some [CHR ''a'', NL, CHR ''X'', NL, CHR ''b'']
   \<and> snd (del_line ''t''
            (snd (ins_line ''t'' c0 [''f'' \<mapsto> [CHR ''a'', NL, CHR ''b'']] ''f'' ''X'' 2))
            ''f'' 2) ''f''
       = Some ''ab''
   \<and> ''ab'' \<noteq> [CHR ''a'', NL, CHR ''b'']"
proof -
  let ?st1 = "snd (ins_line ''t'' c0 [''f'' \<mapsto> [CHR ''a'', NL, CHR ''b'']] ''f'' ''X'' 2)"
  have c: "count_lines [CHR ''a'', NL, CHR ''b''] = 2"
    by (simp add: count_lines_eq NL_def)
  have "?st1 ''f'' = Some (ins_loop [CHR ''a'', NL, CHR ''b''] ''X'' 2 1 c0)"
    unfolding ins_line_def
    by (rule rewrite_file_target [where F = "[CHR ''a'', NL, CHR ''b'']"])
       (simp_all add: c file_not_log)
  then have 1: "?st1 ''f'' = Some [CHR ''a'', NL, CHR ''X'', NL, CHR ''b'']"
    by (simp only: ins_loop_ab)
  have c2: "count_lines [CHR ''a'', NL, CHR ''X'', NL, CHR ''b''] = 3"
    by (simp add: count_lines_eq NL_def)
  have "snd (del_line ''t'' ?st1 ''f'' 2) ''f''
          = Some (del_loop [CHR ''a'', NL, CHR ''X'', NL, CHR ''b''] 2 1)"
    unfolding del_line_def
    by (rule rewrite_file_target [where F = "[CHR ''a'', NL, CHR ''X'', NL, CHR ''b'']"])
       (simp_all add: 1 c2 file_not_log)
  then have 2: "snd (del_line ''t'' ?st1 ''f'' 2) ''f'' = Some ''ab''"
    by (simp only: del_loop_aXb)
  show ?thesis using 1 2 by simp
qed

subsection \<open>rep_line\<close>

lemma skip_line_clean:
  "clean_line l \<Longrightarrow> skip_line (l @ NL # rest) = (of_char NL, rest)"
  by (induction l) (auto simp: skip_line_Cons clean_line_def)

lemma skip_line_clean_end:
  "clean_line l \<Longrightarrow> skip_line l = (EOF, [])"
  by (induction l) (auto simp: skip_line_Cons clean_line_def)

lemma rep_loop_NL:
  "count \<noteq> n \<Longrightarrow>
     rep_loop (NL # rest) X n count =
       NL # rep_loop rest X n (count + 1)"
proof (cases "count + 1 = n")
  case True
  assume "count \<noteq> n"
  then show ?thesis
    using True NL_not_FF rep_loop_at [of rest X n]
    by (simp add: rep_loop_Cons)
next
  case False
  assume "count \<noteq> n"
  then show ?thesis
    using False NL_not_FF by (simp add: rep_loop_Cons)
qed

lemma rep_loop_clean:
  "clean_line l \<Longrightarrow> count \<noteq> n \<Longrightarrow> rep_loop (l @ rest) X n count = l @ rep_loop rest X n count"
proof (induction l)
  case Nil
  show ?case by simp
next
  case (Cons b l)
  then have b: "b \<noteq> NL" "b \<noteq> CHR 0xFF" and l: "clean_line l"
    by (auto simp: clean_line_def)
  show ?case
    using b Cons.prems(2) Cons.IH [OF l Cons.prems(2)]
    by (simp add: rep_loop_Cons)
qed

lemma rep_loop_copy:
  "\<forall>l\<in>set ls. clean_line l \<Longrightarrow> n < count \<Longrightarrow>
     rep_loop (join_lines ls) X n count = join_lines ls @ [CHR 0xFF]"
proof (induction ls arbitrary: count)
  case Nil
  then show ?case by (simp add: rep_loop_Nil)
next
  case (Cons l ls)
  then have l: "clean_line l" and ls: "\<forall>l\<in>set ls. clean_line l" by auto
  have c: "count \<noteq> n" "count + 1 \<noteq> n" using Cons.prems(2) by auto
  show ?case
  proof (cases "ls = []")
    case True
    then show ?thesis
      using rep_loop_clean [OF l c(1), of "[]" X] c(1) by (simp add: rep_loop_Nil)
  next
    case False
    have "rep_loop (join_lines ls) X n (count + 1) = join_lines ls @ [CHR 0xFF]"
      using Cons.IH [OF ls, of "count + 1"] Cons.prems(2) by simp
    then show ?thesis
      using False c
      by (simp add: join_lines_Cons [of l] rep_loop_clean [OF l c(1)] rep_loop_NL)
  qed
qed

lemma rep_loop_line:
  assumes "clean_line d" "\<forall>l\<in>set rest. clean_line l"
  shows "rep_loop (join_lines (d # rest)) X n n =
           X @ (if rest = [] then [] else NL # join_lines rest @ [CHR 0xFF])"
proof (cases "rest = []")
  case True
  then show ?thesis
    using skip_line_clean_end [OF assms(1)] EOF_not_NL by (simp add: rep_loop_at)
next
  case False
  have "rep_loop (join_lines rest) X n (n + 1) = join_lines rest @ [CHR 0xFF]"
    by (rule rep_loop_copy [OF assms(2)]) simp
  then show ?thesis
    using False skip_line_clean [OF assms(1)] EOF_not_NL
    by (simp add: join_lines_Cons [of d] rep_loop_at)
qed

lemma rep_loop_before:
  "\<forall>l\<in>set ls. clean_line l \<Longrightarrow> k < length ls \<Longrightarrow>
     rep_loop (join_lines ls) X (count + k) count =
       join_lines (ls[k := X]) @ (if Suc k < length ls then [CHR 0xFF] else [])"
proof (induction ls arbitrary: count k)
  case Nil
  then show ?case by simp
next
  case (Cons l ls)
  then have l: "clean_line l" and ls: "\<forall>l\<in>set ls. clean_line l" by auto
  show ?case
  proof (cases k)
    case 0
    then show ?thesis
      using rep_loop_line [OF l ls, of X count]
      by (simp add: join_lines_Cons [of X])
  next
    case (Suc k')
    with Cons.prems(2) have k': "k' < length ls" by simp
    then have ne: "ls \<noteq> []" by auto
    have c: "count \<noteq> count + k" using Suc by simp
    have step: "rep_loop (join_lines (l # ls)) X (count + k) count
                  = l @ NL # rep_loop (join_lines ls) X (count + k) (count + 1)"
      using ne by (simp add: join_lines_Cons [of l] rep_loop_clean [OF l c] rep_loop_NL [OF c])
    from Cons.IH [OF ls k', of "count + 1"]
    have IH: "rep_loop (join_lines ls) X (count + k) (count + 1) =
            join_lines (ls[k' := X]) @ (if Suc k' < length ls then [CHR 0xFF] else [])"
      using Suc by simp
    have ne': "ls[k' := X] \<noteq> []" using ne by simp
    show ?thesis
      unfolding step IH using Suc ne' by (simp add: join_lines_Cons [of l])
  qed
qed

text \<open>The loop of \<^verbatim>\<open>rep_line\<close> writes the file with line \<open>n\<close> replaced, and one byte
  0xFF after it unless line \<open>n\<close> is the last line.\<close>

lemma rep_loop_lines:
  assumes "\<forall>l\<in>set ls. clean_line l" "1 \<le> n" "n \<le> length ls"
  shows "rep_loop (join_lines ls) X n 1 =
           join_lines (ls[n - 1 := X]) @ (if n < length ls then [CHR 0xFF] else [])"
proof -
  from assms obtain k where k: "n = Suc k" by (cases n) auto
  with assms(3) have "k < length ls" by simp
  from rep_loop_before [OF assms(1) this, of X 1] k show ?thesis by simp
qed

lemma rep_loop_abc:
  "rep_loop [CHR ''a'', NL, CHR ''b'', NL, CHR ''c''] ''X'' 2 1
     = [CHR ''a'', NL, CHR ''X'', NL, CHR ''c'', CHR 0xFF]"
  by (simp add: rep_loop_Cons rep_loop_Nil skip_line_Cons NL_def EOF_def del: skip_line.simps(2))

text \<open>
  C3 on the code. The file is the three lines \<open>a\<close>, \<open>b\<close>, \<open>c\<close>. \<^verbatim>\<open>rep_line\<close> of line 2 by
  \<open>X\<close> writes the lines \<open>a\<close>, \<open>X\<close>, \<open>c\<close> and then one more byte, 0xFF: at the end of the
  file \<^verbatim>\<open>fputc(c, temp)\<close> is called with \<^verbatim>\<open>c == EOF\<close>.
\<close>

theorem rep_line_writes_EOF_byte:
  "snd (rep_line ''t'' [''f'' \<mapsto> [CHR ''a'', NL, CHR ''b'', NL, CHR ''c'']] ''f'' ''X'' 2) ''f''
     = Some [CHR ''a'', NL, CHR ''X'', NL, CHR ''c'', CHR 0xFF]"
proof -
  have c: "count_lines [CHR ''a'', NL, CHR ''b'', NL, CHR ''c''] = 3"
    by (simp add: count_lines_eq NL_def)
  have "snd (rep_line ''t'' [''f'' \<mapsto> [CHR ''a'', NL, CHR ''b'', NL, CHR ''c'']] ''f'' ''X'' 2) ''f''
          = Some (rep_loop [CHR ''a'', NL, CHR ''b'', NL, CHR ''c''] ''X'' 2 1)"
    unfolding rep_line_def
    by (rule rewrite_file_target [where F = "[CHR ''a'', NL, CHR ''b'', NL, CHR ''c'']"])
       (simp_all add: c file_not_log)
  then show ?thesis by (simp only: rep_loop_abc)
qed

end
